theory Spec2Isabelle
  imports Main
begin

section \<open>The webhook manager of the cache invalidation proxy\<close>

text \<open>
  A shallow embedding of \<^verbatim>\<open>src/webhook.ts\<close> (class \<^verbatim>\<open>WebhookManager\<close>).
  Strings are \<^typ>\<open>string\<close>: a list of code units below 256, which is what a value of an
  HTTP header holds. The built-in string operations the class calls
  (\<^verbatim>\<open>split\<close>, \<^verbatim>\<open>trim\<close>, \<^verbatim>\<open>replace\<close> with a global regular expression of one literal,
  \<^verbatim>\<open>JSON.stringify\<close>) are written out as the language standard defines them on such
  strings. Console output is not part of the model; the clock, the network and the timer
  queue are explicit.
\<close>

subsection \<open>Built-in string operations\<close>

text \<open>\<^verbatim>\<open>s.split(',')\<close>: the pieces between the commas; never the empty list.\<close>

fun split_comma :: "string \<Rightarrow> string list" where
  "split_comma [] = [[]]"
| "split_comma (c # cs) =
     (if c = CHR '','' then [] # split_comma cs
      else (case split_comma cs of
              [] \<Rightarrow> [[c]]
            | f # fs \<Rightarrow> (c # f) # fs))"

text \<open>
  \<^verbatim>\<open>s.trim()\<close> removes white space and line terminators from both ends. Below 256 these
  are TAB, LF, VT, FF, CR, SPACE and NBSP.
\<close>

definition is_space :: "char \<Rightarrow> bool" where
  "is_space c \<longleftrightarrow>
     c \<in> {CHR 0x09, CHR 0x0A, CHR 0x0B, CHR 0x0C, CHR 0x0D, CHR 0x20, CHR 0xA0}"

definition trim :: "string \<Rightarrow> string" where
  "trim s = rev (dropWhile is_space (rev (dropWhile is_space s)))"

text \<open>
  The replacement text of \<^verbatim>\<open>String.prototype.replace\<close> is a template
  (\<^verbatim>\<open>GetSubstitution\<close>): \<^verbatim>\<open>$$\<close> stands for one dollar, \<^verbatim>\<open>$&\<close> for the matched text,
  dollar-backquote for the text before the match and dollar-quote for the text after it.
  The regular expressions of this class have no capture group, so a dollar before a digit
  or before \<^verbatim>\<open><\<close> stands for itself, like every other character.
\<close>

fun get_substitution :: "string \<Rightarrow> string \<Rightarrow> string \<Rightarrow> string \<Rightarrow> string" where
  "get_substitution matched left right (c # d # rest) =
     (if c = CHR ''$'' \<and> d = CHR ''$'' then CHR ''$'' # get_substitution matched left right rest
      else if c = CHR ''$'' \<and> d = CHR ''&'' then matched @ get_substitution matched left right rest
      else if c = CHR ''$'' \<and> d = CHR 0x60 then left @ get_substitution matched left right rest
      else if c = CHR ''$'' \<and> d = CHR 0x27 then right @ get_substitution matched left right rest
      else c # get_substitution matched left right (d # rest))"
| "get_substitution matched left right rest = rest"

text \<open>
  \<^verbatim>\<open>s.replace(/lit/g, repl)\<close> for a regular expression that matches exactly the
  non-empty literal \<open>lit\<close>: the matches are found from left to right, each search
  resuming behind the previous match, and the text put in is never searched again.
  \<open>left\<close> is the part of the subject already passed.
\<close>

function replace_scan :: "string \<Rightarrow> string \<Rightarrow> string \<Rightarrow> string \<Rightarrow> string" where
  "replace_scan lit repl left [] = []"
| "replace_scan lit repl left (c # cs) =
     (if lit \<noteq> [] \<and> take (length lit) (c # cs) = lit
      then get_substitution lit left (drop (length lit) (c # cs)) repl
             @ replace_scan lit repl (left @ lit) (drop (length lit) (c # cs))
      else c # replace_scan lit repl (left @ [c]) cs)"
  by pat_completeness auto
termination
  by (relation "measure (\<lambda>(lit, repl, left, s). length s)") auto

definition replace_all :: "string \<Rightarrow> string \<Rightarrow> string \<Rightarrow> string" where
  "replace_all lit repl s = replace_scan lit repl [] s"

text \<open>
  \<^verbatim>\<open>JSON.stringify\<close> of a string, of an array of strings and of a boolean. A quote and a
  backslash are escaped, a control character becomes its short escape or
  \<^verbatim>\<open>\u00XX\<close> in lower-case hexadecimal, everything else is copied.
\<close>

definition hex_digit :: "nat \<Rightarrow> char" where
  "hex_digit n = ''0123456789abcdef'' ! (n mod 16)"

definition json_char :: "char \<Rightarrow> string" where
  "json_char c =
     (if c = CHR 0x22 then [CHR 0x5C, CHR 0x22]
      else if c = CHR 0x5C then [CHR 0x5C, CHR 0x5C]
      else if c = CHR 0x08 then [CHR 0x5C, CHR ''b'']
      else if c = CHR 0x0C then [CHR 0x5C, CHR ''f'']
      else if c = CHR 0x0A then [CHR 0x5C, CHR ''n'']
      else if c = CHR 0x0D then [CHR 0x5C, CHR ''r'']
      else if c = CHR 0x09 then [CHR 0x5C, CHR ''t'']
      else if (of_char c :: nat) < 32
        then [CHR 0x5C, CHR ''u'', CHR ''0'', CHR ''0'',
              hex_digit (of_char c div 16), hex_digit (of_char c)]
      else [c])"

definition json_string :: "string \<Rightarrow> string" where
  "json_string s = CHR 0x22 # concat (map json_char s) @ [CHR 0x22]"

fun join_comma :: "string list \<Rightarrow> string" where
  "join_comma [] = []"
| "join_comma [x] = x"
| "join_comma (x # y # ys) = x @ CHR '','' # join_comma (y # ys)"

definition json_string_array :: "string list \<Rightarrow> string" where
  "json_string_array xs = CHR ''['' # join_comma (map json_string xs) @ [CHR '']'']"

definition json_bool :: "bool \<Rightarrow> string" where
  "json_bool b = (if b then ''true'' else ''false'')"

text \<open>
  \<^verbatim>\<open>s.replace(/^"|"$/g, '')\<close>: a quote at the very start and a quote at the very end are
  removed (one character cannot be both matches).
\<close>

definition strip_quotes :: "string \<Rightarrow> string" where
  "strip_quotes s =
     (let s1 = (case s of [] \<Rightarrow> [] | c # cs \<Rightarrow> if c = CHR 0x22 then cs else s)
      in if s1 \<noteq> [] \<and> last s1 = CHR 0x22 then butlast s1 else s1)"

text \<open>A non-negative integer in a template literal: its decimal digits.\<close>

fun decimal :: "nat \<Rightarrow> string" where
  "decimal n = (if n < 10 then [hex_digit n] else decimal (n div 10) @ [hex_digit (n mod 10)])"

declare decimal.simps [simp del]

subsection \<open>Configuration and invalidation data\<close>

text \<open>
  The declarations of \<^verbatim>\<open>MiddlewareConfig\<close> and \<^verbatim>\<open>InvalidationData\<close> are in
  \<^verbatim>\<open>types.ts\<close>; the fields are the ones the class reads, typed as it uses them. The secret
  and the header templates are optional. \<open>method_name\<close> is the field \<^verbatim>\<open>method\<close>.
\<close>

record webhook_config =
  url :: string
  method_name :: string
  secret :: "string option"
  headers :: "(string \<times> string) list option"
  bodyTemplate :: string
  retryCount :: int
  retryDelay :: int

record MiddlewareConfig =
  ghostPublicUrl :: string
  webhook :: webhook_config
  debug :: bool

record InvalidationData =
  urls :: "string list"
  purgeAll :: bool
  pattern :: string
  timestamp :: string

subsection \<open>Pattern interpreter\<close>

text \<open>
  \<^verbatim>\<open>parseInvalidationPattern\<close>. \<open>clock\<close> is what \<^verbatim>\<open>new Date().toISOString()\<close> returns at
  the call.
\<close>

definition parseInvalidationPattern :: "MiddlewareConfig \<Rightarrow> string \<Rightarrow> string \<Rightarrow> InvalidationData" where
  "parseInvalidationPattern config clock p =
     (let all = (p = ''/$/'' \<or> p = ''/*'');
          us = (if all then [ghostPublicUrl config @ ''/*'']
                else map (\<lambda>u. ghostPublicUrl config @ trim u) (split_comma p))
      in \<lparr>urls = us, purgeAll = all, pattern = p, timestamp = clock\<rparr>)"

subsection \<open>Templater\<close>

text \<open>\<^verbatim>\<open>processTemplate\<close>: four calls of \<^verbatim>\<open>replace\<close>, each on the result of the one before.\<close>

definition processTemplate :: "string \<Rightarrow> InvalidationData \<Rightarrow> string" where
  "processTemplate template data =
     replace_all ''${pattern}'' (json_string (pattern data))
       (replace_all ''${timestamp}'' (strip_quotes (json_string (timestamp data)))
         (replace_all ''${purgeAll}'' (json_bool (purgeAll data))
           (replace_all ''${urls}'' (json_string_array (urls data)) template)))"

text \<open>
  The templater in the words of the specification, for comparison: one pass over the
  template from left to right, in which each of the four placeholders is replaced by its
  value as it is (the URLs as a JSON array, the flag as a JSON boolean, the time stamp
  bare, the pattern as a JSON string) and the text put in is not looked at again.
\<close>

function render_single_pass :: "string \<Rightarrow> InvalidationData \<Rightarrow> string" where
  "render_single_pass [] data = []"
| "render_single_pass (c # cs) data =
     (if take (length ''${urls}'') (c # cs) = ''${urls}''
        then json_string_array (urls data) @ render_single_pass (drop (length ''${urls}'') (c # cs)) data
      else if take (length ''${purgeAll}'') (c # cs) = ''${purgeAll}''
        then json_bool (purgeAll data) @ render_single_pass (drop (length ''${purgeAll}'') (c # cs)) data
      else if take (length ''${timestamp}'') (c # cs) = ''${timestamp}''
        then timestamp data @ render_single_pass (drop (length ''${timestamp}'') (c # cs)) data
      else if take (length ''${pattern}'') (c # cs) = ''${pattern}''
        then json_string (pattern data) @ render_single_pass (drop (length ''${pattern}'') (c # cs)) data
      else c # render_single_pass cs data)"
  by pat_completeness auto
termination
  by (relation "measure (\<lambda>(s, data). length s)") auto

text \<open>
  \<^verbatim>\<open>processHeaderTemplates\<close>. The argument is the list \<^verbatim>\<open>Object.entries(headers)\<close>; the
  result object is a map from property names to values. An assignment
  \<^verbatim>\<open>obj[key] = value\<close> of a string to the key \<^verbatim>\<open>__proto__\<close> of an ordinary object reaches
  the setter of \<^verbatim>\<open>Object.prototype\<close> and creates no property.
\<close>

definition set_property :: "(string \<rightharpoonup> string) \<Rightarrow> string \<Rightarrow> string \<Rightarrow> (string \<rightharpoonup> string)" where
  "set_property obj key v = (if key = ''__proto__'' then obj else obj(key \<mapsto> v))"

definition secret_or_empty :: "string option \<Rightarrow> string" where
  "secret_or_empty s = (case s of None \<Rightarrow> [] | Some x \<Rightarrow> x)"

definition processHeaderTemplates ::
  "(string \<times> string) list \<Rightarrow> string option \<Rightarrow> (string \<rightharpoonup> string)" where
  "processHeaderTemplates hs s =
     fold (\<lambda>(key, v) processedHeaders.
             set_property processedHeaders key (replace_all ''${secret}'' (secret_or_empty s) v))
       hs Map.empty"

subsection \<open>Delivery engine\<close>

text \<open>
  An error value is either an \<^verbatim>\<open>Error\<close> the class creates, with its message, or what
  \<^verbatim>\<open>fetch\<close> (or reading the body of the response) rejected with. Of a response the
  class reads \<^verbatim>\<open>ok\<close>, \<^verbatim>\<open>status\<close> and \<^verbatim>\<open>text()\<close>.
\<close>

datatype js_error = Error string | FetchError string

record response =
  ok :: bool
  status :: nat
  textBody :: "js_error + string"

datatype fetch_result = Responded response | Failed js_error

record request =
  req_url :: string
  req_method :: string
  req_headers :: "string \<rightharpoonup> string"
  req_body :: string

text \<open>The effects of a delivery, in order: a request sent, a delay waited for.\<close>

datatype effect = Fetch request | Sleep int

text \<open>The body of the \<^verbatim>\<open>try\<close> block after \<^verbatim>\<open>fetch\<close> has settled: the error it throws, if any.\<close>

definition try_response :: "fetch_result \<Rightarrow> js_error + unit" where
  "try_response r =
     (case r of
        Failed e \<Rightarrow> Inl e
      | Responded resp \<Rightarrow>
          if \<not> ok resp then
            (case textBody resp of
               Inl e \<Rightarrow> Inl e
             | Inr errorText \<Rightarrow>
                 Inl (Error (''HTTP error '' @ decimal (status resp) @ '': '' @ errorText)))
          else Inr ())"

text \<open>
  The retry loop, from the value of \<open>attempt\<close> on. \<open>net\<close> gives what the request of each
  attempt meets; \<open>tr\<close> collects the effects.
\<close>

function retry_loop ::
  "webhook_config \<Rightarrow> request \<Rightarrow> (int \<Rightarrow> fetch_result) \<Rightarrow> int \<Rightarrow> effect list
     \<Rightarrow> (js_error + unit) \<times> effect list" where
  "retry_loop w req net attempt tr =
     (if attempt \<le> retryCount w then
        (case try_response (net attempt) of
           Inr u \<Rightarrow> (Inr (), tr @ [Fetch req])
         | Inl e \<Rightarrow>
             if attempt = retryCount w then (Inl e, tr @ [Fetch req])
             else retry_loop w req net (attempt + 1) (tr @ [Fetch req, Sleep (retryDelay w)]))
      else (Inr (), tr))"
  by pat_completeness auto
termination
  by (relation "measure (\<lambda>(w, req, net, attempt, tr). nat (retryCount w + 1 - attempt))") auto

declare retry_loop.simps [simp del]

definition build_headers :: "webhook_config \<Rightarrow> (string \<rightharpoonup> string)" where
  "build_headers w =
     [''Content-Type'' \<mapsto> ''application/json'']
       ++ processHeaderTemplates (case headers w of None \<Rightarrow> [] | Some hs \<Rightarrow> hs) (secret w)"

definition build_request :: "MiddlewareConfig \<Rightarrow> InvalidationData \<Rightarrow> request" where
  "build_request config data =
     \<lparr>req_url = url (webhook config), req_method = method_name (webhook config),
      req_headers = build_headers (webhook config),
      req_body = processTemplate (bodyTemplate (webhook config)) data\<rparr>"

definition sendWebhookRequest ::
  "MiddlewareConfig \<Rightarrow> InvalidationData \<Rightarrow> (int \<Rightarrow> fetch_result)
     \<Rightarrow> (js_error + unit) \<times> effect list" where
  "sendWebhookRequest config data net =
     retry_loop (webhook config) (build_request config data) net 1 []"

definition triggerWebhook ::
  "MiddlewareConfig \<Rightarrow> string \<Rightarrow> (int \<Rightarrow> fetch_result) \<Rightarrow> string
     \<Rightarrow> (js_error + unit) \<times> effect list" where
  "triggerWebhook config clock net p =
     sendWebhookRequest config (parseInvalidationPattern config clock p) net"

subsection \<open>Debounce gate\<close>

text \<open>
  The timers of the event loop that \<^verbatim>\<open>debouncePurgeCache\<close> creates, with the instance's
  field \<^verbatim>\<open>cachePurgeTimeout\<close>. Time is in milliseconds. A timer holds the argument its
  callback passes to \<^verbatim>\<open>triggerWebhook\<close>; \<open>triggered\<close> lists these arguments in the
  order the callbacks ran. The field is never reset, and clearing a timer that has
  fired does nothing.
\<close>

record timer =
  handle :: nat
  due :: nat
  arg :: string

record runtime =
  now :: nat
  timers :: "timer list"
  next_handle :: nat
  cachePurgeTimeout :: "nat option"
  triggered :: "string list"

definition debounceTime :: nat where
  "debounceTime = 10000"

definition clearTimeout :: "nat \<Rightarrow> runtime \<Rightarrow> runtime" where
  "clearTimeout h rt = rt\<lparr>timers := filter (\<lambda>t. handle t \<noteq> h) (timers rt)\<rparr>"

definition setTimeout :: "string \<Rightarrow> nat \<Rightarrow> runtime \<Rightarrow> nat \<times> runtime" where
  "setTimeout p ms rt =
     (next_handle rt,
      rt\<lparr>timers := timers rt @ [\<lparr>handle = next_handle rt, due = now rt + ms, arg = p\<rparr>],
         next_handle := Suc (next_handle rt)\<rparr>)"

definition debouncePurgeCache :: "string \<Rightarrow> runtime \<Rightarrow> runtime" where
  "debouncePurgeCache p rt =
     (let rt1 = (case cachePurgeTimeout rt of None \<Rightarrow> rt | Some h \<Rightarrow> clearTimeout h rt);
          (h, rt2) = setTimeout p debounceTime rt1
      in rt2\<lparr>cachePurgeTimeout := Some h\<rparr>)"

text \<open>
  The event loop up to time \<open>t\<close>: the timers due by then fire in the order of their due
  times, and leave the queue.
\<close>

definition run_until :: "nat \<Rightarrow> runtime \<Rightarrow> runtime" where
  "run_until t rt =
     rt\<lparr>now := max (now rt) t,
        timers := filter (\<lambda>x. \<not> due x \<le> t) (timers rt),
        triggered := triggered rt @ map arg (sort_key due (filter (\<lambda>x. due x \<le> t) (timers rt)))\<rparr>"

text \<open>A sequence of calls \<open>(t, p)\<close>: at time \<open>t\<close> the caller invokes the gate with \<open>p\<close>.\<close>

fun run_calls :: "(nat \<times> string) list \<Rightarrow> runtime \<Rightarrow> runtime" where
  "run_calls [] rt = rt"
| "run_calls ((t, p) # cs) rt = run_calls cs (debouncePurgeCache p (run_until t rt))"

text \<open>Each call comes no earlier than the one before and less than the window after it.\<close>

fun within_window :: "nat \<Rightarrow> (nat \<times> string) list \<Rightarrow> bool" where
  "within_window prev [] = True"
| "within_window prev ((t, p) # cs) = (prev \<le> t \<and> t < prev + debounceTime \<and> within_window t cs)"

definition new_instance :: "nat \<Rightarrow> runtime" where
  "new_instance t = \<lparr>now = t, timers = [], next_handle = 0, cachePurgeTimeout = None, triggered = []\<rparr>"

text \<open>
  The state right after a call at time \<open>t\<close> with pattern \<open>p\<close>: exactly one timer is
  pending, it is the one the field names, and it carries \<open>p\<close>.
\<close>

definition armed :: "runtime \<Rightarrow> nat \<Rightarrow> string \<Rightarrow> bool" where
  "armed rt t p \<longleftrightarrow>
     (\<exists>h. timers rt = [\<lparr>handle = h, due = t + debounceTime, arg = p\<rparr>] \<and>
          cachePurgeTimeout rt = Some h \<and> now rt = t)"

text \<open>What a trace of effects shows: the requests sent and the delays waited for.\<close>

fun requests :: "effect list \<Rightarrow> request list" where
  "requests [] = []"
| "requests (Fetch r # es) = r # requests es"
| "requests (Sleep d # es) = requests es"

fun delays :: "effect list \<Rightarrow> int list" where
  "delays [] = []"
| "delays (Fetch r # es) = delays es"
| "delays (Sleep d # es) = d # delays es"

text \<open>
  A value \<open>v\<close> put into a text cannot complete the rest \<open>body\<close> of a placeholder:
  no non-empty end of \<open>body\<close> begins \<open>v\<close> or begins with \<open>v\<close>.
\<close>

definition clash_free :: "string \<Rightarrow> string \<Rightarrow> bool" where
  "clash_free v body \<longleftrightarrow> (\<forall>u w y z. body = u @ w \<and> w \<noteq> [] \<longrightarrow> v @ y \<noteq> w @ z)"

subsection \<open>A configuration for the examples\<close>

text \<open>
  The values of \<^verbatim>\<open>example.env\<close>, with a short public URL and a short secret.
\<close>

definition example_template :: string where
  "example_template =
     CHR ''{'' # CHR 0x22 # ''urls'' @ CHR 0x22 # '': ${urls}, '' @ CHR 0x22 # ''timestamp'' @ CHR 0x22 # '': ''
       @ CHR 0x22 # ''${timestamp}'' @ CHR 0x22 # '', '' @ CHR 0x22 # ''purgeAll'' @ CHR 0x22 # '': ${purgeAll}}''"

definition example_config :: MiddlewareConfig where
  "example_config =
     \<lparr>ghostPublicUrl = ''https://site'',
      webhook = \<lparr>url = ''https://api.example.com/invalidate'', method_name = ''POST'',
                 secret = Some ''abc'',
                 headers = Some [(''Authorization'', ''Bearer ${secret}''),
                                 (''Content-Type'', ''application/json'')],
                 bodyTemplate = example_template,
                 retryCount = 3, retryDelay = 1000\<rparr>,
      debug = True\<rparr>"

definition example_data :: InvalidationData where
  "example_data = parseInvalidationPattern example_config ''2024-01-01T00:00:00.000Z'' ''/a''"

definition unavailable :: fetch_result where
  "unavailable = Responded \<lparr>ok = False, status = 503, textBody = Inr ''busy''\<rparr>"

definition accepted :: fetch_result where
  "accepted = Responded \<lparr>ok = True, status = 200, textBody = Inr []\<rparr>"

section \<open>Properties\<close>

subsection \<open>Pattern interpreter\<close>

text \<open>
  C4. For each of the two full-purge sentinels, \<^verbatim>\<open>/$/\<close> and \<^verbatim>\<open>/*\<close>, the interpreter
  returns \<open>purgeAll = true\<close> and the one-element list of the public base URL followed by
  \<^verbatim>\<open>/*\<close>.
\<close>

theorem parse_sentinel:
  "p = ''/$/'' \<or> p = ''/*'' \<Longrightarrow>
     purgeAll (parseInvalidationPattern config clock p) = True \<and>
     urls (parseInvalidationPattern config clock p) = [ghostPublicUrl config @ ''/*'']"
  by (auto simp: parseInvalidationPattern_def)

theorem parse_sentinel_witness:
  "(''/$/'' = ''/$/'' \<or> ''/$/'' = ''/*'') \<and>
   purgeAll (parseInvalidationPattern example_config ''2024-01-01T00:00:00.000Z'' ''/$/'') = True \<and>
   urls (parseInvalidationPattern example_config ''2024-01-01T00:00:00.000Z'' ''/$/'') = [''https://site/*'']"
  using parse_sentinel [of "''/$/''" example_config "''2024-01-01T00:00:00.000Z''"]
  by (simp add: example_config_def)

text \<open>
  C9. The interpreter has no failing branch: for every input string it returns an intent
  that keeps the raw pattern and the time stamp and has at least one URL. For the empty
  string the intent is not a full purge and its only URL is the bare base URL.
\<close>

theorem parse_total_empty:
  "pattern (parseInvalidationPattern config clock p) = p \<and>
   timestamp (parseInvalidationPattern config clock p) = clock \<and>
   urls (parseInvalidationPattern config clock p) \<noteq> [] \<and>
   parseInvalidationPattern config clock [] =
     \<lparr>urls = [ghostPublicUrl config], purgeAll = False, pattern = [], timestamp = clock\<rparr>"
  by (cases p) (auto simp: parseInvalidationPattern_def trim_def Let_def split: list.splits)

text \<open>
  Splitting at the commas and joining with commas are inverse to each other, so every
  pattern is the join of its fragments, and the fragments hold no comma.
\<close>

lemma split_comma_nonempty: "split_comma s \<noteq> []"
  by (induction s) (auto split: list.splits)

lemma split_comma_plain: "CHR '','' \<notin> set f \<Longrightarrow> split_comma f = [f]"
  by (induction f) auto

lemma split_comma_append:
  "CHR '','' \<notin> set f \<Longrightarrow> split_comma (f @ CHR '','' # s) = f # split_comma s"
  by (induction f) (auto split: list.splits)

lemma split_join_comma:
  "frags \<noteq> [] \<Longrightarrow> \<forall>f\<in>set frags. CHR '','' \<notin> set f \<Longrightarrow> split_comma (join_comma frags) = frags"
  by (induction frags rule: join_comma.induct) (auto simp: split_comma_plain split_comma_append)

lemma join_split_comma: "join_comma (split_comma s) = s"
proof (induction s)
  case Nil
  then show ?case by simp
next
  case (Cons c s)
  obtain f fs where fs: "split_comma s = f # fs"
    using split_comma_nonempty [of s] by (cases "split_comma s") auto
  show ?case
  proof (cases "c = CHR '',''")
    case True
    with Cons fs show ?thesis by simp
  next
    case False
    with Cons fs show ?thesis by (cases fs) auto
  qed
qed

lemma split_comma_no_comma: "f \<in> set (split_comma s) \<Longrightarrow> CHR '','' \<notin> set f"
  by (induction s arbitrary: f) (auto split: list.splits if_splits)

lemma length_split_comma: "length (split_comma s) = Suc (count_list s (CHR '',''))"
  by (induction s) (auto split: list.splits)

lemma trim_decomposition:
  "\<exists>a b. s = a @ trim s @ b \<and> (\<forall>c\<in>set a. is_space c) \<and> (\<forall>c\<in>set b. is_space c)"
proof -
  let ?a = "takeWhile is_space s"
  let ?r = "dropWhile is_space s"
  let ?b = "rev (takeWhile is_space (rev ?r))"
  have "?r = trim s @ ?b"
    unfolding trim_def by (metis rev_append rev_rev_ident takeWhile_dropWhile_id)
  then have "s = ?a @ trim s @ ?b" by (metis takeWhile_dropWhile_id)
  moreover have "\<forall>c\<in>set ?a. is_space c" by (meson set_takeWhileD)
  moreover have "\<forall>c\<in>set ?b. is_space c" by (metis set_rev set_takeWhileD)
  ultimately show ?thesis by blast
qed

lemma trim_ends:
  "trim s \<noteq> [] \<Longrightarrow> \<not> is_space (hd (trim s)) \<and> \<not> is_space (last (trim s))"
proof -
  assume ne: "trim s \<noteq> []"
  let ?r = "dropWhile is_space s"
  let ?q = "dropWhile is_space (rev ?r)"
  have q: "?q \<noteq> []" using ne by (simp add: trim_def)
  then have "\<not> is_space (hd ?q)" by (rule hd_dropWhile)
  then have l: "\<not> is_space (last (trim s))" using q by (simp add: trim_def last_rev)
  have "?r \<noteq> []"
  proof
    assume "?r = []"
    with q show False by simp
  qed
  then have h: "\<not> is_space (hd ?r)" by (rule hd_dropWhile)
  obtain b where "?r = trim s @ b"
    unfolding trim_def by (metis rev_append rev_rev_ident takeWhile_dropWhile_id)
  with ne h have "\<not> is_space (hd (trim s))" by (metis hd_append2)
  with l show ?thesis by simp
qed

text \<open>
  C5. A pattern that is not a sentinel and consists of the fragments \<open>frags\<close>, joined
  by commas, gives \<open>purgeAll = false\<close> and as many URLs as there are fragments; the
  \<open>i\<close>-th URL is the base URL followed by the \<open>i\<close>-th fragment without the white space
  around it. The order is kept, and so are duplicates.
\<close>

theorem parse_fragments:
  assumes "frags \<noteq> []" and "\<forall>f\<in>set frags. CHR '','' \<notin> set f"
    and "join_comma frags \<noteq> ''/$/''" and "join_comma frags \<noteq> ''/*''"
  shows "purgeAll (parseInvalidationPattern config clock (join_comma frags)) = False \<and>
         length (urls (parseInvalidationPattern config clock (join_comma frags))) = length frags \<and>
         (\<forall>i<length frags.
            urls (parseInvalidationPattern config clock (join_comma frags)) ! i =
              ghostPublicUrl config @ trim (frags ! i))"
  using assms by (simp add: parseInvalidationPattern_def split_join_comma)

theorem parse_fragments_witness:
  "urls (parseInvalidationPattern example_config ''2024-01-01T00:00:00.000Z'' ''/, /page/*, /rss ,/'') =
     [''https://site/'', ''https://site/page/*'', ''https://site/rss'', ''https://site/''] \<and>
   purgeAll (parseInvalidationPattern example_config ''2024-01-01T00:00:00.000Z'' ''/, /page/*, /rss ,/'') = False"
proof -
  have j: "join_comma [''/'', '' /page/*'', '' /rss '', ''/''] = ''/, /page/*, /rss ,/''" by simp
  have t: "trim ''/'' = ''/''" "trim '' /page/*'' = ''/page/*''" "trim '' /rss '' = ''/rss''"
    by (simp_all add: trim_def is_space_def)
  have g: "ghostPublicUrl example_config = ''https://site''" by (simp add: example_config_def)
  from parse_fragments [of "[''/'', '' /page/*'', '' /rss '', ''/'']" example_config "''2024-01-01T00:00:00.000Z''"]
  have *: "purgeAll (parseInvalidationPattern example_config ''2024-01-01T00:00:00.000Z'' ''/, /page/*, /rss ,/'') = False"
    "length (urls (parseInvalidationPattern example_config ''2024-01-01T00:00:00.000Z'' ''/, /page/*, /rss ,/'')) = 4"
    "\<forall>i<4. urls (parseInvalidationPattern example_config ''2024-01-01T00:00:00.000Z'' ''/, /page/*, /rss ,/'') ! i
        = ghostPublicUrl example_config @ trim ([''/'', '' /page/*'', '' /rss '', ''/''] ! i)"
    unfolding j by simp_all
  let ?u = "urls (parseInvalidationPattern example_config ''2024-01-01T00:00:00.000Z'' ''/, /page/*, /rss ,/'')"
  have "?u ! 0 = ''https://site/''" "?u ! 1 = ''https://site/page/*''" "?u ! 2 = ''https://site/rss''" "?u ! 3 = ''https://site/''"
    using *(3) [rule_format, of 0] *(3) [rule_format, of 1] *(3) [rule_format, of 2] *(3) [rule_format, of 3]
    by (simp_all add: t g)
  with *(2) have "?u = [''https://site/'', ''https://site/page/*'', ''https://site/rss'', ''https://site/'']"
    by (intro nth_equalityI) (auto simp: less_Suc_eq numeral_eq_Suc)
  with *(1) show ?thesis by simp
qed

subsection \<open>Delivery engine\<close>

lemma try_response_fails:
  "(\<forall>resp. r = Responded resp \<longrightarrow> \<not> ok resp) \<Longrightarrow> \<exists>e. try_response r = Inl e"
  by (cases r) (auto simp: try_response_def split: sum.splits)

lemma try_response_ok: "ok resp \<Longrightarrow> try_response (Responded resp) = Inr ()"
  by (simp add: try_response_def)

lemma requests_append: "requests (xs @ ys) = requests xs @ requests ys"
  by (induction xs rule: requests.induct) simp_all

lemma delays_append: "delays (xs @ ys) = delays xs @ delays ys"
  by (induction xs rule: delays.induct) simp_all

lemma requests_rounds:
  "requests (concat (replicate n [Fetch req, Sleep d])) = replicate n req"
  by (induction n) simp_all

lemma delays_rounds:
  "delays (concat (replicate n [Fetch req, Sleep d])) = replicate n d"
  by (induction n) simp_all

text \<open>
  The loop entered at attempt \<open>a\<close>, when the attempts before \<open>k\<close> fail and attempt \<open>k\<close>
  succeeds: one request and one delay for each failure, then the last request.
\<close>

lemma retry_loop_succeeds:
  assumes "a \<le> k" and "k \<le> retryCount w"
    and "\<forall>i. a \<le> i \<and> i < k \<longrightarrow> (\<exists>e. try_response (net i) = Inl e)"
    and "try_response (net k) = Inr ()"
  shows "retry_loop w req net a tr =
           (Inr (), tr @ concat (replicate (nat (k - a)) [Fetch req, Sleep (retryDelay w)]) @ [Fetch req])"
  using assms
proof (induction "nat (k - a)" arbitrary: a tr)
  case 0
  then have "a = k" by simp
  with 0 show ?case by (subst retry_loop.simps) simp
next
  case (Suc n)
  then have lt: "a < k" by linarith
  with Suc.prems obtain e where e: "try_response (net a) = Inl e" by auto
  have n: "n = nat (k - (a + 1))" using Suc.hyps(2) by linarith
  have step: "retry_loop w req net a tr =
      retry_loop w req net (a + 1) (tr @ [Fetch req, Sleep (retryDelay w)])"
    using lt Suc.prems(2) e by (subst retry_loop.simps) simp
  have "retry_loop w req net (a + 1) (tr @ [Fetch req, Sleep (retryDelay w)]) =
        (Inr (), (tr @ [Fetch req, Sleep (retryDelay w)]) @
           concat (replicate (nat (k - (a + 1))) [Fetch req, Sleep (retryDelay w)]) @ [Fetch req])"
    using Suc.prems lt by (intro Suc.hyps(1) [OF n]) auto
  moreover have "nat (k - a) = Suc (nat (k - (a + 1)))" using lt by linarith
  ultimately show ?case using step by simp
qed

text \<open>The same when every attempt up to the last one fails.\<close>

lemma retry_loop_exhausted:
  assumes "a \<le> retryCount w"
    and "\<forall>i. a \<le> i \<and> i < retryCount w \<longrightarrow> (\<exists>e. try_response (net i) = Inl e)"
    and "try_response (net (retryCount w)) = Inl e"
  shows "retry_loop w req net a tr =
           (Inl e, tr @ concat (replicate (nat (retryCount w - a)) [Fetch req, Sleep (retryDelay w)])
                      @ [Fetch req])"
  using assms
proof (induction "nat (retryCount w - a)" arbitrary: a tr)
  case 0
  then have "a = retryCount w" by simp
  with 0 show ?case by (subst retry_loop.simps) simp
next
  case (Suc n)
  then have lt: "a < retryCount w" by linarith
  with Suc.prems obtain e' where e': "try_response (net a) = Inl e'" by auto
  have n: "n = nat (retryCount w - (a + 1))" using Suc.hyps(2) by linarith
  have step: "retry_loop w req net a tr =
      retry_loop w req net (a + 1) (tr @ [Fetch req, Sleep (retryDelay w)])"
    using lt e' by (subst retry_loop.simps) simp
  have "retry_loop w req net (a + 1) (tr @ [Fetch req, Sleep (retryDelay w)]) =
        (Inl e, (tr @ [Fetch req, Sleep (retryDelay w)]) @
           concat (replicate (nat (retryCount w - (a + 1))) [Fetch req, Sleep (retryDelay w)])
             @ [Fetch req])"
    using Suc.prems lt by (intro Suc.hyps(1) [OF n]) auto
  moreover have "nat (retryCount w - a) = Suc (nat (retryCount w - (a + 1)))" using lt by linarith
  ultimately show ?case using step by simp
qed

text \<open>
  C2. With a retry count of at least \<open>k\<close>, when the attempts \<open>1\<close> to \<open>k - 1\<close> fail (a
  response that is not ok, or no response) and attempt \<open>k\<close> gets an ok response,
  the delivery returns success; it has sent exactly \<open>k\<close> requests, waited exactly
  \<open>k - 1\<close> times, each time for the configured delay, and nothing follows the request
  that succeeded.
\<close>

theorem deliver_succeeds_at_attempt:
  assumes "1 \<le> k" and "k \<le> retryCount (webhook config)"
    and "\<forall>i. 1 \<le> i \<and> i < k \<longrightarrow> (\<forall>resp. net i = Responded resp \<longrightarrow> \<not> ok resp)"
    and "net k = Responded r" and "ok r"
  shows "sendWebhookRequest config data net =
           (Inr (), concat (replicate (nat (k - 1))
                      [Fetch (build_request config data), Sleep (retryDelay (webhook config))])
                    @ [Fetch (build_request config data)]) \<and>
         length (requests (snd (sendWebhookRequest config data net))) = nat k \<and>
         delays (snd (sendWebhookRequest config data net)) =
           replicate (nat (k - 1)) (retryDelay (webhook config))"
proof -
  have fails: "\<forall>i. 1 \<le> i \<and> i < k \<longrightarrow> (\<exists>e. try_response (net i) = Inl e)"
    using assms(3) try_response_fails by blast
  have succeeds: "try_response (net k) = Inr ()"
    using assms(4,5) by (simp add: try_response_ok)
  have run: "sendWebhookRequest config data net =
      (Inr (), [] @ concat (replicate (nat (k - 1))
                 [Fetch (build_request config data), Sleep (retryDelay (webhook config))])
               @ [Fetch (build_request config data)])"
    unfolding sendWebhookRequest_def
    by (rule retry_loop_succeeds [OF assms(1) assms(2) fails succeeds])
  have "Suc (nat (k - 1)) = nat k" using assms(1) by linarith
  with run show ?thesis
    by (simp add: requests_append delays_append requests_rounds delays_rounds)
qed

theorem deliver_succeeds_at_attempt_witness:
  "sendWebhookRequest example_config example_data (\<lambda>i. if i < 3 then unavailable else accepted) =
     (Inr (), [Fetch (build_request example_config example_data), Sleep 1000,
               Fetch (build_request example_config example_data), Sleep 1000,
               Fetch (build_request example_config example_data)]) \<and>
   length (requests (snd (sendWebhookRequest example_config example_data
     (\<lambda>i. if i < 3 then unavailable else accepted)))) = 3 \<and>
   delays (snd (sendWebhookRequest example_config example_data
     (\<lambda>i. if i < 3 then unavailable else accepted))) = [1000, 1000]"
proof -
  have rc: "retryCount (webhook example_config) = 3" "retryDelay (webhook example_config) = 1000"
    by (simp_all add: example_config_def)
  have two: "nat (3 - 1) = Suc (Suc 0)" by simp
  have "sendWebhookRequest example_config example_data (\<lambda>i. if i < 3 then unavailable else accepted) =
          (Inr (), concat (replicate (nat (3 - 1))
                     [Fetch (build_request example_config example_data),
                      Sleep (retryDelay (webhook example_config))])
                   @ [Fetch (build_request example_config example_data)]) \<and>
        length (requests (snd (sendWebhookRequest example_config example_data
          (\<lambda>i. if i < 3 then unavailable else accepted)))) = nat 3 \<and>
        delays (snd (sendWebhookRequest example_config example_data
          (\<lambda>i. if i < 3 then unavailable else accepted))) =
          replicate (nat (3 - 1)) (retryDelay (webhook example_config))"
    by (rule deliver_succeeds_at_attempt [where r = "\<lparr>ok = True, status = 200, textBody = Inr []\<rparr>"])
       (simp_all add: rc unavailable_def accepted_def)
  then show ?thesis
    unfolding rc two by simp
qed

text \<open>
  C3. With a retry count \<open>N\<close> of at least one, when every attempt fails, the delivery
  raises the error of the last attempt: what \<^verbatim>\<open>fetch\<close> or reading the body was rejected
  with, or else the \<^verbatim>\<open>Error\<close> whose message holds the status and the text of the last
  response. It has sent \<open>N\<close> requests by then.
\<close>

theorem deliver_exhausted:
  assumes "1 \<le> retryCount (webhook config)"
    and "\<forall>i. 1 \<le> i \<and> i \<le> retryCount (webhook config) \<longrightarrow>
           (\<forall>resp. net i = Responded resp \<longrightarrow> \<not> ok resp)"
  shows "fst (sendWebhookRequest config data net) =
           Inl (case net (retryCount (webhook config)) of
                  Failed e \<Rightarrow> e
                | Responded resp \<Rightarrow>
                    (case textBody resp of
                       Inl e \<Rightarrow> e
                     | Inr errorText \<Rightarrow>
                         Error (''HTTP error '' @ decimal (status resp) @ '': '' @ errorText))) \<and>
         length (requests (snd (sendWebhookRequest config data net))) =
           nat (retryCount (webhook config))"
proof -
  let ?N = "retryCount (webhook config)"
  have fails: "\<forall>i. 1 \<le> i \<and> i < ?N \<longrightarrow> (\<exists>e. try_response (net i) = Inl e)"
    using assms(2) try_response_fails by (metis less_imp_le)
  have "\<forall>resp. net ?N = Responded resp \<longrightarrow> \<not> ok resp"
    using assms by blast
  then have last: "try_response (net ?N) =
      Inl (case net ?N of
             Failed e \<Rightarrow> e
           | Responded resp \<Rightarrow>
               (case textBody resp of
                  Inl e \<Rightarrow> e
                | Inr errorText \<Rightarrow>
                    Error (''HTTP error '' @ decimal (status resp) @ '': '' @ errorText)))"
    by (cases "net ?N") (auto simp: try_response_def split: sum.splits)
  have run: "sendWebhookRequest config data net =
      (Inl (case net ?N of
             Failed e \<Rightarrow> e
           | Responded resp \<Rightarrow>
               (case textBody resp of
                  Inl e \<Rightarrow> e
                | Inr errorText \<Rightarrow>
                    Error (''HTTP error '' @ decimal (status resp) @ '': '' @ errorText))),
       [] @ concat (replicate (nat (?N - 1))
              [Fetch (build_request config data), Sleep (retryDelay (webhook config))])
            @ [Fetch (build_request config data)])"
    unfolding sendWebhookRequest_def
    by (rule retry_loop_exhausted [OF assms(1) fails last])
  have "Suc (nat (?N - 1)) = nat ?N" using assms(1) by linarith
  with run show ?thesis
    by (simp add: requests_append requests_rounds)
qed

theorem deliver_exhausted_witness:
  "fst (sendWebhookRequest (example_config\<lparr>webhook := (webhook example_config)\<lparr>retryCount := 2\<rparr>\<rparr>)
          example_data
          (\<lambda>i. if i = 1 then Failed (FetchError ''ECONNRESET'') else unavailable)) =
     Inl (Error ''HTTP error 503: busy'') \<and>
   length (requests (snd (sendWebhookRequest
          (example_config\<lparr>webhook := (webhook example_config)\<lparr>retryCount := 2\<rparr>\<rparr>)
          example_data
          (\<lambda>i. if i = 1 then Failed (FetchError ''ECONNRESET'') else unavailable)))) = 2"
  using deliver_exhausted
    [of "example_config\<lparr>webhook := (webhook example_config)\<lparr>retryCount := 2\<rparr>\<rparr>"
        "\<lambda>i. if i = 1 then Failed (FetchError ''ECONNRESET'') else unavailable" example_data]
  by (simp add: unavailable_def decimal.simps hex_digit_def)

text \<open>
  C10. With a retry count of zero or less the loop body never runs: the delivery
  returns success, and has sent no request and raised no error.
\<close>

theorem no_attempt_without_retries:
  "retryCount (webhook config) \<le> 0 \<Longrightarrow> sendWebhookRequest config data net = (Inr (), [])"
  by (simp add: sendWebhookRequest_def retry_loop.simps)

theorem no_attempt_without_retries_witness:
  "retryCount (webhook (example_config\<lparr>webhook := (webhook example_config)\<lparr>retryCount := 0\<rparr>\<rparr>)) \<le> 0 \<and>
   sendWebhookRequest (example_config\<lparr>webhook := (webhook example_config)\<lparr>retryCount := 0\<rparr>\<rparr>)
     example_data (\<lambda>i. Failed (FetchError ''ECONNREFUSED'')) = (Inr (), [])"
  using no_attempt_without_retries
    [of "example_config\<lparr>webhook := (webhook example_config)\<lparr>retryCount := 0\<rparr>\<rparr>"
        example_data "\<lambda>i. Failed (FetchError ''ECONNREFUSED'')"]
  by (simp add: example_config_def)

subsection \<open>Debounce gate\<close>

lemma debounce_idle:
  "timers rt = [] \<Longrightarrow>
     armed (debouncePurgeCache p rt) (now rt) p \<and>
     triggered (debouncePurgeCache p rt) = triggered rt"
  by (auto simp: armed_def debouncePurgeCache_def setTimeout_def clearTimeout_def
           split: option.splits)

lemma debounce_armed:
  "armed rt t q \<Longrightarrow>
     armed (debouncePurgeCache p rt) t p \<and>
     triggered (debouncePurgeCache p rt) = triggered rt"
  by (auto simp: armed_def debouncePurgeCache_def setTimeout_def clearTimeout_def)

lemma run_until_early:
  "armed rt t q \<Longrightarrow> t \<le> T \<Longrightarrow> T < t + debounceTime \<Longrightarrow>
     armed (run_until T rt) T q = armed (rt\<lparr>now := T\<rparr>) T q \<and>
     timers (run_until T rt) = timers rt \<and>
     cachePurgeTimeout (run_until T rt) = cachePurgeTimeout rt \<and>
     now (run_until T rt) = T \<and>
     triggered (run_until T rt) = triggered rt"
  by (auto simp: armed_def run_until_def)

lemma run_until_idle:
  "timers rt = [] \<Longrightarrow>
     timers (run_until T rt) = [] \<and> triggered (run_until T rt) = triggered rt \<and>
     now (run_until T rt) = max (now rt) T"
  by (simp add: run_until_def)

lemma run_until_late:
  "armed rt t q \<Longrightarrow> t + debounceTime \<le> T \<Longrightarrow>
     timers (run_until T rt) = [] \<and> triggered (run_until T rt) = triggered rt @ [q]"
  by (auto simp: armed_def run_until_def)

lemma call_armed:
  assumes "armed rt t q" and "t \<le> T" and "T < t + debounceTime"
  shows "armed (debouncePurgeCache p (run_until T rt)) T p \<and>
         triggered (debouncePurgeCache p (run_until T rt)) = triggered rt"
proof -
  obtain h where h: "timers rt = [\<lparr>handle = h, due = t + debounceTime, arg = q\<rparr>]"
      "cachePurgeTimeout rt = Some h"
    using assms(1) by (auto simp: armed_def)
  have r: "timers (run_until T rt) = timers rt" "cachePurgeTimeout (run_until T rt) = cachePurgeTimeout rt"
      "now (run_until T rt) = T" "triggered (run_until T rt) = triggered rt"
    using run_until_early [OF assms] by simp_all
  show ?thesis
    using h r by (auto simp: armed_def debouncePurgeCache_def setTimeout_def clearTimeout_def)
qed

lemma run_calls_armed:
  "armed rt t q \<Longrightarrow> within_window t cs \<Longrightarrow>
     armed (run_calls cs rt) (fst (last ((t, q) # cs))) (snd (last ((t, q) # cs))) \<and>
     triggered (run_calls cs rt) = triggered rt"
proof (induction cs arbitrary: rt t q)
  case Nil
  then show ?case by simp
next
  case (Cons c cs)
  obtain T p where c: "c = (T, p)" by (cases c)
  from Cons.prems c have w: "t \<le> T" "T < t + debounceTime" "within_window T cs" by simp_all
  let ?rt = "debouncePurgeCache p (run_until T rt)"
  have a: "armed ?rt T p" "triggered ?rt = triggered rt"
    using call_armed [OF Cons.prems(1) w(1,2)] by simp_all
  from Cons.IH [OF a(1) w(3)] a(2) c show ?case by simp
qed

lemma first_call:
  assumes "timers rt = []" and "now rt \<le> t"
  shows "armed (debouncePurgeCache p (run_until t rt)) t p \<and>
         triggered (debouncePurgeCache p (run_until t rt)) = triggered rt"
proof -
  have r: "timers (run_until t rt) = []" "triggered (run_until t rt) = triggered rt"
      "now (run_until t rt) = t"
    using run_until_idle [OF assms(1), of t] assms(2) by simp_all
  from debounce_idle [OF r(1), of p] r show ?thesis by simp
qed

lemma within_window_take: "within_window t cs \<Longrightarrow> within_window t (take n cs)"
proof (induction cs arbitrary: t n)
  case Nil
  then show ?case by simp
next
  case (Cons c cs)
  then show ?case by (cases n; cases c) auto
qed

lemma armed_one_timer: "armed rt t p \<Longrightarrow> length (timers rt) = 1"
  by (auto simp: armed_def)

text \<open>
  C1. Calls at the times \<open>t\<close>, \<open>t\<^sub>2\<close>, ... on an instance with no timer pending, each less
  than the window of 10,000 ms after the one before: after every call at most one timer
  is pending; nothing is dispatched before the window has passed after the last call;
  once it has, exactly one dispatch has been made, with the pattern of the last call,
  and no timer is left. The patterns of the earlier calls are never dispatched.
\<close>

theorem debounce_burst:
  assumes "timers rt = []" and "now rt \<le> t" and "within_window t cs"
  shows "(\<forall>n\<le>length ((t, p) # cs). length (timers (run_calls (take n ((t, p) # cs)) rt)) \<le> 1) \<and>
         (\<forall>T<fst (last ((t, p) # cs)) + debounceTime.
            triggered (run_until T (run_calls ((t, p) # cs) rt)) = triggered rt) \<and>
         (\<forall>T\<ge>fst (last ((t, p) # cs)) + debounceTime.
            triggered (run_until T (run_calls ((t, p) # cs) rt)) =
              triggered rt @ [snd (last ((t, p) # cs))] \<and>
            timers (run_until T (run_calls ((t, p) # cs) rt)) = [])"
proof -
  let ?rt1 = "debouncePurgeCache p (run_until t rt)"
  have f: "armed ?rt1 t p" "triggered ?rt1 = triggered rt"
    using first_call [OF assms(1,2)] by simp_all
  have one: "length (timers (run_calls (take n ((t, p) # cs)) rt)) \<le> 1" for n
  proof (cases n)
    case 0
    with assms(1) show ?thesis by simp
  next
    case (Suc m)
    have "armed (run_calls (take m cs) ?rt1) (fst (last ((t, p) # take m cs))) (snd (last ((t, p) # take m cs)))"
      using run_calls_armed [OF f(1) within_window_take [OF assms(3)]] by blast
    then show ?thesis using Suc by (simp add: armed_one_timer)
  qed
  let ?end = "run_calls ((t, p) # cs) rt"
  let ?T = "fst (last ((t, p) # cs))"
  let ?p = "snd (last ((t, p) # cs))"
  have e: "armed ?end ?T ?p" "triggered ?end = triggered rt"
    using run_calls_armed [OF f(1) assms(3)] f(2) by simp_all
  have early: "triggered (run_until T ?end) = triggered rt" if "T < ?T + debounceTime" for T
    using e that by (auto simp: armed_def run_until_def)
  have late: "triggered (run_until T ?end) = triggered rt @ [?p] \<and> timers (run_until T ?end) = []"
    if "?T + debounceTime \<le> T" for T
    using run_until_late [OF e(1) that] e(2) by simp
  from one early late show ?thesis by blast
qed

theorem debounce_burst_witness:
  "length (timers (run_calls [(5, ''/a'')] (new_instance 0))) \<le> 1 \<and>
   length (timers (run_calls [(5, ''/a''), (100, ''/b'')] (new_instance 0))) \<le> 1 \<and>
   length (timers (run_calls [(5, ''/a''), (100, ''/b''), (10099, ''/$/'')] (new_instance 0))) \<le> 1 \<and>
   triggered (run_until 20098 (run_calls [(5, ''/a''), (100, ''/b''), (10099, ''/$/'')] (new_instance 0))) = [] \<and>
   triggered (run_until 20099 (run_calls [(5, ''/a''), (100, ''/b''), (10099, ''/$/'')] (new_instance 0))) = [''/$/''] \<and>
   timers (run_until 20099 (run_calls [(5, ''/a''), (100, ''/b''), (10099, ''/$/'')] (new_instance 0))) = []"
proof -
  have h: "timers (new_instance 0) = []" "now (new_instance 0) \<le> 5"
    "within_window 5 [(100, ''/b''), (10099, ''/$/'')]"
    by (simp_all add: new_instance_def debounceTime_def)
  have l: "fst (last [(5::nat, ''/a''), (100, ''/b''), (10099, ''/$/'')]) + debounceTime = 20099"
    "snd (last [(5::nat, ''/a''), (100, ''/b''), (10099, ''/$/'')]) = ''/$/''"
    "triggered (new_instance 0) = []"
    by (simp_all add: debounceTime_def new_instance_def)
  note b = debounce_burst [OF h, of "''/a''", unfolded l]
  from b have n: "\<forall>n\<le>length [(5::nat, ''/a''), (100, ''/b''), (10099, ''/$/'')].
      length (timers (run_calls (take n [(5, ''/a''), (100, ''/b''), (10099, ''/$/'')]) (new_instance 0))) \<le> 1"
    by blast
  have "length (timers (run_calls [(5, ''/a'')] (new_instance 0))) \<le> 1"
    using n [rule_format, of 1] by simp
  moreover have "length (timers (run_calls [(5, ''/a''), (100, ''/b'')] (new_instance 0))) \<le> 1"
    using n [rule_format, of 2] by (simp add: numeral_2_eq_2)
  moreover have "length (timers (run_calls [(5, ''/a''), (100, ''/b''), (10099, ''/$/'')] (new_instance 0))) \<le> 1"
    using n [rule_format, of 3] by simp
  moreover have "triggered (run_until 20098 (run_calls [(5, ''/a''), (100, ''/b''), (10099, ''/$/'')] (new_instance 0))) = []"
    using b by simp
  moreover have "triggered (run_until 20099 (run_calls [(5, ''/a''), (100, ''/b''), (10099, ''/$/'')] (new_instance 0))) = [''/$/''] \<and>
      timers (run_until 20099 (run_calls [(5, ''/a''), (100, ''/b''), (10099, ''/$/'')] (new_instance 0))) = []"
    using b by simp
  ultimately show ?thesis by blast
qed

subsection \<open>Templater\<close>

text \<open>
  A replacement text without a dollar sign stands for itself, and then the result of
  \<^verbatim>\<open>replace\<close> does not depend on the text already passed.
\<close>

lemma get_substitution_plain:
  "CHR ''$'' \<notin> set repl \<Longrightarrow> get_substitution m l r repl = repl"
  by (induction m l r repl rule: get_substitution.induct) auto

lemma replace_scan_hit:
  "lit \<noteq> [] \<Longrightarrow> take (length lit) (c # cs) = lit \<Longrightarrow>
     replace_scan lit repl left (c # cs) =
       get_substitution lit left (drop (length lit) (c # cs)) repl
         @ replace_scan lit repl (left @ lit) (drop (length lit) (c # cs))"
  by simp

lemma replace_scan_miss:
  "lit = [] \<or> take (length lit) (c # cs) \<noteq> lit \<Longrightarrow>
     replace_scan lit repl left (c # cs) = c # replace_scan lit repl (left @ [c]) cs"
  by auto

lemma replace_scan_left:
  "CHR ''$'' \<notin> set repl \<Longrightarrow> replace_scan lit repl left s = replace_scan lit repl left' s"
proof (induction s arbitrary: left left' rule: length_induct)
  case (1 s)
  show ?case
  proof (cases s)
    case Nil
    then show ?thesis by simp
  next
    case (Cons c cs)
    show ?thesis
    proof (cases "lit \<noteq> [] \<and> take (length lit) (c # cs) = lit")
      case True
      then have "length (drop (length lit) (c # cs)) < length s"
        using Cons by (cases lit) auto
      with 1 have "replace_scan lit repl (left @ lit) (drop (length lit) (c # cs)) =
                   replace_scan lit repl (left' @ lit) (drop (length lit) (c # cs))"
        by blast
      moreover from True have l: "lit \<noteq> []" and t: "take (length lit) (c # cs) = lit"
        by simp_all
      ultimately show ?thesis
        unfolding Cons replace_scan_hit [OF l t] get_substitution_plain [OF 1(2)] by simp
    next
      case False
      have "replace_scan lit repl (left @ [c]) cs = replace_scan lit repl (left' @ [c]) cs"
        using 1 Cons by simp
      moreover from False have m: "lit = [] \<or> take (length lit) (c # cs) \<noteq> lit"
        by blast
      ultimately show ?thesis
        unfolding Cons replace_scan_miss [OF m] by simp
    qed
  qed
qed

lemma replace_all_Nil: "replace_all lit repl [] = []"
  by (simp add: replace_all_def)

lemma replace_all_match:
  assumes "CHR ''$'' \<notin> set repl" and "lit \<noteq> []"
  shows "replace_all lit repl (lit @ s) = repl @ replace_all lit repl s"
proof -
  obtain c cs where l: "lit @ s = c # cs" using assms(2) by (cases lit) auto
  have "replace_scan lit repl [] (c # cs) =
          get_substitution lit [] (drop (length lit) (c # cs)) repl
            @ replace_scan lit repl ([] @ lit) (drop (length lit) (c # cs))"
    using assms(2) l [symmetric] by (intro replace_scan_hit) simp_all
  then show ?thesis
    using l [symmetric] assms(1) replace_scan_left [OF assms(1), of lit "[] @ lit" s "[]"]
    by (simp add: replace_all_def get_substitution_plain)
qed

lemma replace_all_skip:
  assumes "CHR ''$'' \<notin> set repl" and "lit = [] \<or> take (length lit) (c # cs) \<noteq> lit"
  shows "replace_all lit repl (c # cs) = c # replace_all lit repl cs"
  unfolding replace_all_def replace_scan_miss [OF assms(2)]
  using replace_scan_left [OF assms(1), of lit "[] @ [c]" cs "[]"] by simp

lemma replace_all_plain_prefix:
  assumes "CHR ''$'' \<notin> set repl" and "hd lit = CHR ''$''" and "lit \<noteq> []"
    and "CHR ''$'' \<notin> set u"
  shows "replace_all lit repl (u @ s) = u @ replace_all lit repl s"
  using assms(4)
proof (induction u)
  case Nil
  then show ?case by simp
next
  case (Cons a u)
  have "take (length lit) ((a # u) @ s) \<noteq> lit"
    using Cons.prems assms(2,3) by (cases lit) auto
  then have "replace_all lit repl (a # u @ s) = a # replace_all lit repl (u @ s)"
    using replace_all_skip [OF assms(1)] by simp
  with Cons show ?case by simp
qed

text \<open>
  Replacing a placeholder by a value that is free of clashes with \<open>body\<close> does not
  create an occurrence of \<open>body\<close> at the start of the text.
\<close>

lemma clash_free_hd: "v \<noteq> [] \<Longrightarrow> hd v \<notin> set body \<Longrightarrow> clash_free v body"
  unfolding clash_free_def
proof (intro allI impI notI)
  fix u w y z
  assume v: "v \<noteq> []" "hd v \<notin> set body" and b: "body = u @ w \<and> w \<noteq> []" and e: "v @ y = w @ z"
  from v(1) b e have "hd v = hd w" by (metis hd_append2)
  moreover from b have "hd w \<in> set body" by simp
  ultimately show False using v(2) by simp
qed

lemma clash_free_last:
  assumes "x \<in> set v" and "x \<notin> set body" and "last body \<notin> set v"
  shows "clash_free v body"
  unfolding clash_free_def
proof (intro allI impI notI)
  fix u w y z
  assume b: "body = u @ w \<and> w \<noteq> []" and e: "v @ y = w @ z"
  from e consider k where "v = w @ k" | k where "w = v @ k"
    by (auto simp: append_eq_append_conv2)
  then show False
  proof cases
    case 1
    with b have "last body \<in> set v" by auto
    with assms(3) show ?thesis by simp
  next
    case 2
    with b assms(1) have "x \<in> set body" by auto
    with assms(2) show ?thesis by simp
  qed
qed

lemma no_new_prefix:
  assumes "CHR ''$'' \<notin> set v" and "clash_free v body"
  shows "body = u @ w \<Longrightarrow> \<forall>r. x \<noteq> w @ r \<Longrightarrow> replace_all lit v x \<noteq> w @ r"
proof (induction x arbitrary: u w r)
  case Nil
  then show ?case by (auto simp: replace_all_Nil)
next
  case (Cons c x)
  from Cons.prems(2) have w: "w \<noteq> []" by auto
  then obtain a w' where aw: "w = a # w'" by (cases w) auto
  show ?case
  proof (cases "lit \<noteq> [] \<and> take (length lit) (c # x) = lit")
    case True
    then have "c # x = lit @ drop (length lit) (c # x)"
      by (metis append_take_drop_id)
    then have "replace_all lit v (c # x) = v @ replace_all lit v (drop (length lit) (c # x))"
      using replace_all_match [OF assms(1)] True by metis
    then show ?thesis
      using assms(2) Cons.prems(1) w unfolding clash_free_def by metis
  next
    case False
    then have s: "replace_all lit v (c # x) = c # replace_all lit v x"
      using replace_all_skip [OF assms(1)] by blast
    show ?thesis
    proof
      assume e: "replace_all lit v (c # x) = w @ r"
      with s aw have ca: "c = a" and t: "replace_all lit v x = w' @ r" by simp_all
      from Cons.prems(2) aw ca have "\<forall>r. x \<noteq> w' @ r" by auto
      moreover have "body = (u @ [a]) @ w'" using Cons.prems(1) aw by simp
      ultimately have "replace_all lit v x \<noteq> w' @ r" using Cons.IH by blast
      with t show False by simp
    qed
  qed
qed

lemma take_prefix_iff: "take (length p) t = p \<longleftrightarrow> (\<exists>x. t = p @ x)"
  by (metis append_eq_conv_conj append_take_drop_id)

lemma hex_digit_no_dollar: "hex_digit n \<noteq> CHR ''$''"
proof -
  have "hex_digit n \<in> set ''0123456789abcdef''"
    unfolding hex_digit_def by (rule nth_mem) simp
  then show ?thesis by auto
qed

lemma json_char_no_dollar: "c \<noteq> CHR ''$'' \<Longrightarrow> CHR ''$'' \<notin> set (json_char c)"
  by (simp add: json_char_def hex_digit_no_dollar [symmetric])

lemma json_string_no_dollar: "CHR ''$'' \<notin> set s \<Longrightarrow> CHR ''$'' \<notin> set (json_string s)"
  by (auto simp: json_string_def) (metis json_char_no_dollar)

lemma join_comma_no_dollar:
  "\<forall>x\<in>set xs. CHR ''$'' \<notin> set x \<Longrightarrow> CHR ''$'' \<notin> set (join_comma xs)"
  by (induction xs rule: join_comma.induct) auto

lemma json_string_array_no_dollar:
  "\<forall>u\<in>set us. CHR ''$'' \<notin> set u \<Longrightarrow> CHR ''$'' \<notin> set (json_string_array us)"
  by (simp add: json_string_array_def join_comma_no_dollar json_string_no_dollar)

lemma json_bool_no_dollar: "CHR ''$'' \<notin> set (json_bool b)"
  by (simp add: json_bool_def)

lemma strip_quotes_json_string: "strip_quotes (json_string s) = concat (map json_char s)"
  by (simp add: strip_quotes_def json_string_def)

lemma json_char_iso: "c \<in> set ''0123456789-+:.TZ'' \<Longrightarrow> json_char c = [c]"
  by (auto simp: json_char_def)

lemma concat_json_char_plain:
  "\<forall>c\<in>set ts. json_char c = [c] \<Longrightarrow> concat (map json_char ts) = ts"
  by (induction ts) simp_all

lemma bare_timestamp:
  assumes "set ts \<subseteq> set ''0123456789-+:.TZ''"
  shows "strip_quotes (json_string ts) = ts"
proof -
  have "\<forall>c\<in>set ts. json_char c = [c]"
    using assms json_char_iso by blast
  then show ?thesis
    unfolding strip_quotes_json_string by (rule concat_json_char_plain)
qed

lemma rsp_urls:
  "render_single_pass (''${urls}'' @ x) d = json_string_array (urls d) @ render_single_pass x d"
  by simp

lemma rsp_purgeAll:
  "render_single_pass (''${purgeAll}'' @ x) d = json_bool (purgeAll d) @ render_single_pass x d"
  by simp

lemma rsp_timestamp:
  "render_single_pass (''${timestamp}'' @ x) d = timestamp d @ render_single_pass x d"
  by simp

lemma rsp_pattern:
  "render_single_pass (''${pattern}'' @ x) d = json_string (pattern d) @ render_single_pass x d"
  by simp

lemma rsp_char:
  assumes "\<forall>x. c # cs \<noteq> ''${urls}'' @ x" and "\<forall>x. c # cs \<noteq> ''${purgeAll}'' @ x"
    and "\<forall>x. c # cs \<noteq> ''${timestamp}'' @ x" and "\<forall>x. c # cs \<noteq> ''${pattern}'' @ x"
  shows "render_single_pass (c # cs) d = c # render_single_pass cs d"
proof -
  have "\<not> (\<exists>x. c # cs = ''${urls}'' @ x)" and "\<not> (\<exists>x. c # cs = ''${purgeAll}'' @ x)"
    and "\<not> (\<exists>x. c # cs = ''${timestamp}'' @ x)" and "\<not> (\<exists>x. c # cs = ''${pattern}'' @ x)"
    using assms by blast+
  then show ?thesis
    unfolding render_single_pass.simps take_prefix_iff by (simp only: if_False)
qed

lemma pass_value:
  "CHR ''$'' \<notin> set v' \<Longrightarrow> CHR ''$'' \<notin> set v \<Longrightarrow>
     replace_all (CHR ''$'' # b) v' (v @ x) = v @ replace_all (CHR ''$'' # b) v' x"
  by (rule replace_all_plain_prefix) simp_all

lemma pass_dollar:
  assumes "CHR ''$'' \<notin> set v" and "\<forall>r. x \<noteq> b @ r"
  shows "replace_all (CHR ''$'' # b) v (CHR ''$'' # x) = CHR ''$'' # replace_all (CHR ''$'' # b) v x"
proof (rule replace_all_skip [OF assms(1)])
  show "CHR ''$'' # b = [] \<or> take (length (CHR ''$'' # b)) (CHR ''$'' # x) \<noteq> CHR ''$'' # b"
    unfolding take_prefix_iff using assms(2) by simp
qed

lemma pass_char:
  assumes "CHR ''$'' \<notin> set v" and "c \<noteq> CHR ''$''"
  shows "replace_all (CHR ''$'' # b) v (c # x) = c # replace_all (CHR ''$'' # b) v x"
proof (rule replace_all_skip [OF assms(1)])
  show "CHR ''$'' # b = [] \<or> take (length (CHR ''$'' # b)) (c # x) \<noteq> CHR ''$'' # b"
    unfolding take_prefix_iff using assms(2) by simp
qed

lemma pass_other:
  assumes "CHR ''$'' \<notin> set v" and "CHR ''$'' \<notin> set bi" and "\<forall>r. bi @ x \<noteq> bj @ r"
  shows "replace_all (CHR ''$'' # bj) v ((CHR ''$'' # bi) @ x) =
           (CHR ''$'' # bi) @ replace_all (CHR ''$'' # bj) v x"
proof -
  have "replace_all (CHR ''$'' # bj) v (CHR ''$'' # (bi @ x)) =
          CHR ''$'' # replace_all (CHR ''$'' # bj) v (bi @ x)"
    by (rule pass_dollar [OF assms(1,3)])
  then show ?thesis
    using pass_value [OF assms(1,2)] by simp
qed

lemma keep_no_prefix:
  assumes "CHR ''$'' \<notin> set v" and "clash_free v b" and "\<forall>r. x \<noteq> b @ r"
  shows "\<forall>r. replace_all lit v x \<noteq> b @ r"
  using no_new_prefix [OF assms(1,2), of "[]" b x] assms(3) by simp

text \<open>
  The four passes agree with the single pass of the specification when the values hold
  nothing a later pass could act on: for every template, when no URL and not the pattern
  contains a dollar sign and the time stamp is a non-empty string of the characters of an
  ISO-8601 time stamp, no text put in by a pass is changed by a later one.
\<close>

theorem render_is_single_pass:
  assumes "\<forall>u\<in>set (urls data). CHR ''$'' \<notin> set u"
    and "CHR ''$'' \<notin> set (pattern data)"
    and "timestamp data \<noteq> []"
    and "set (timestamp data) \<subseteq> set ''0123456789-+:.TZ''"
  shows "processTemplate template data = render_single_pass template data"
proof -
  define v1 where "v1 = json_string_array (urls data)"
  define v2 where "v2 = json_bool (purgeAll data)"
  define v3 where "v3 = timestamp data"
  define v4 where "v4 = json_string (pattern data)"
  have d1: "CHR ''$'' \<notin> set v1"
    unfolding v1_def using assms(1) by (rule json_string_array_no_dollar)
  have d2: "CHR ''$'' \<notin> set v2"
    unfolding v2_def by (rule json_bool_no_dollar)
  have d3: "CHR ''$'' \<notin> set v3"
    unfolding v3_def using assms(4) by auto
  have d4: "CHR ''$'' \<notin> set v4"
    unfolding v4_def using assms(2) by (rule json_string_no_dollar)
  have bare: "strip_quotes (json_string (timestamp data)) = v3"
    unfolding v3_def using assms(4) by (rule bare_timestamp)
  have h1: "v1 \<noteq> []" "hd v1 = CHR ''[''"
    by (simp_all add: v1_def json_string_array_def)
  have c12: "clash_free v1 ''{purgeAll}''" and c13: "clash_free v1 ''{timestamp}''"
    and c14: "clash_free v1 ''{pattern}''"
    using h1 by (simp_all add: clash_free_hd)
  have c23: "clash_free v2 ''{timestamp}''"
  proof (cases "purgeAll data")
    case True
    then have "v2 = ''true''" by (simp add: v2_def json_bool_def)
    then show ?thesis by (intro clash_free_last [of "CHR ''u''"]) simp_all
  next
    case False
    then have "v2 = ''false''" by (simp add: v2_def json_bool_def)
    then show ?thesis by (intro clash_free_hd) simp_all
  qed
  have c24: "clash_free v2 ''{pattern}''"
  proof (cases "purgeAll data")
    case True
    then have "v2 = ''true''" by (simp add: v2_def json_bool_def)
    then show ?thesis by (intro clash_free_last [of "CHR ''u''"]) simp_all
  next
    case False
    then have "v2 = ''false''" by (simp add: v2_def json_bool_def)
    then show ?thesis by (intro clash_free_hd) simp_all
  qed
  have c34: "clash_free v3 ''{pattern}''"
  proof (rule clash_free_hd)
    show "v3 \<noteq> []" using assms(3) by (simp add: v3_def)
    then have "hd v3 \<in> set ''0123456789-+:.TZ''"
      using assms(4) unfolding v3_def by (meson hd_in_set subsetD)
    then show "hd v3 \<notin> set ''{pattern}''" by auto
  qed
  define A1 where "A1 = replace_all ''${urls}'' v1"
  define A2 where "A2 = replace_all ''${purgeAll}'' v2"
  define A3 where "A3 = replace_all ''${timestamp}'' v3"
  define A4 where "A4 = replace_all ''${pattern}'' v4"
  have pt: "processTemplate t data = A4 (A3 (A2 (A1 t)))" for t
    by (simp add: processTemplate_def A1_def A2_def A3_def A4_def v1_def v2_def v4_def bare)
  have s_nil: "A4 (A3 (A2 (A1 []))) = []"
    by (simp add: A1_def A2_def A3_def A4_def replace_all_Nil)
  have s1: "A4 (A3 (A2 (A1 (''${urls}'' @ x)))) = v1 @ A4 (A3 (A2 (A1 x)))" for x
  proof -
    have "A1 (''${urls}'' @ x) = v1 @ A1 x"
      unfolding A1_def by (rule replace_all_match [OF d1]) simp
    moreover have "A2 (v1 @ y) = v1 @ A2 y" for y
      unfolding A2_def by (rule pass_value [OF d2 d1])
    moreover have "A3 (v1 @ y) = v1 @ A3 y" for y
      unfolding A3_def by (rule pass_value [OF d3 d1])
    moreover have "A4 (v1 @ y) = v1 @ A4 y" for y
      unfolding A4_def by (rule pass_value [OF d4 d1])
    ultimately show ?thesis by simp
  qed
  have s2: "A4 (A3 (A2 (A1 (''${purgeAll}'' @ x)))) = v2 @ A4 (A3 (A2 (A1 x)))" for x
  proof -
    have "A1 (''${purgeAll}'' @ x) = ''${purgeAll}'' @ A1 x"
      unfolding A1_def by (rule pass_other [OF d1]) simp_all
    moreover have "A2 (''${purgeAll}'' @ y) = v2 @ A2 y" for y
      unfolding A2_def by (rule replace_all_match [OF d2]) simp
    moreover have "A3 (v2 @ y) = v2 @ A3 y" for y
      unfolding A3_def by (rule pass_value [OF d3 d2])
    moreover have "A4 (v2 @ y) = v2 @ A4 y" for y
      unfolding A4_def by (rule pass_value [OF d4 d2])
    ultimately show ?thesis by simp
  qed
  have s3: "A4 (A3 (A2 (A1 (''${timestamp}'' @ x)))) = v3 @ A4 (A3 (A2 (A1 x)))" for x
  proof -
    have "A1 (''${timestamp}'' @ x) = ''${timestamp}'' @ A1 x"
      unfolding A1_def by (rule pass_other [OF d1]) simp_all
    moreover have "A2 (''${timestamp}'' @ y) = ''${timestamp}'' @ A2 y" for y
      unfolding A2_def by (rule pass_other [OF d2]) simp_all
    moreover have "A3 (''${timestamp}'' @ y) = v3 @ A3 y" for y
      unfolding A3_def by (rule replace_all_match [OF d3]) simp
    moreover have "A4 (v3 @ y) = v3 @ A4 y" for y
      unfolding A4_def by (rule pass_value [OF d4 d3])
    ultimately show ?thesis by simp
  qed
  have s4: "A4 (A3 (A2 (A1 (''${pattern}'' @ x)))) = v4 @ A4 (A3 (A2 (A1 x)))" for x
  proof -
    have "A1 (''${pattern}'' @ x) = ''${pattern}'' @ A1 x"
      unfolding A1_def by (rule pass_other [OF d1]) simp_all
    moreover have "A2 (''${pattern}'' @ y) = ''${pattern}'' @ A2 y" for y
      unfolding A2_def by (rule pass_other [OF d2]) simp_all
    moreover have "A3 (''${pattern}'' @ y) = ''${pattern}'' @ A3 y" for y
      unfolding A3_def by (rule pass_other [OF d3]) simp_all
    moreover have "A4 (''${pattern}'' @ y) = v4 @ A4 y" for y
      unfolding A4_def by (rule replace_all_match [OF d4]) simp
    ultimately show ?thesis by simp
  qed
  have s_char: "A4 (A3 (A2 (A1 (c # x)))) = c # A4 (A3 (A2 (A1 x)))" if "c \<noteq> CHR ''$''" for c x
    unfolding A1_def A2_def A3_def A4_def
    by (simp add: pass_char [OF d1 that] pass_char [OF d2 that] pass_char [OF d3 that]
          pass_char [OF d4 that])
  have s_dollar: "A4 (A3 (A2 (A1 (CHR ''$'' # x)))) = CHR ''$'' # A4 (A3 (A2 (A1 x)))"
    if n1: "\<forall>r. x \<noteq> ''{urls}'' @ r" and n2: "\<forall>r. x \<noteq> ''{purgeAll}'' @ r"
      and n3: "\<forall>r. x \<noteq> ''{timestamp}'' @ r" and n4: "\<forall>r. x \<noteq> ''{pattern}'' @ r" for x
  proof -
    have a1: "A1 (CHR ''$'' # x) = CHR ''$'' # A1 x"
      unfolding A1_def by (rule pass_dollar [OF d1 n1])
    have "\<forall>r. A1 x \<noteq> ''{purgeAll}'' @ r"
      unfolding A1_def by (rule keep_no_prefix [OF d1 c12 n2])
    then have a2: "A2 (CHR ''$'' # A1 x) = CHR ''$'' # A2 (A1 x)"
      unfolding A2_def by (rule pass_dollar [OF d2])
    have "\<forall>r. A1 x \<noteq> ''{timestamp}'' @ r"
      unfolding A1_def by (rule keep_no_prefix [OF d1 c13 n3])
    then have "\<forall>r. A2 (A1 x) \<noteq> ''{timestamp}'' @ r"
      unfolding A2_def by (rule keep_no_prefix [OF d2 c23])
    then have a3: "A3 (CHR ''$'' # A2 (A1 x)) = CHR ''$'' # A3 (A2 (A1 x))"
      unfolding A3_def by (rule pass_dollar [OF d3])
    have "\<forall>r. A1 x \<noteq> ''{pattern}'' @ r"
      unfolding A1_def by (rule keep_no_prefix [OF d1 c14 n4])
    then have "\<forall>r. A2 (A1 x) \<noteq> ''{pattern}'' @ r"
      unfolding A2_def by (rule keep_no_prefix [OF d2 c24])
    then have "\<forall>r. A3 (A2 (A1 x)) \<noteq> ''{pattern}'' @ r"
      unfolding A3_def by (rule keep_no_prefix [OF d3 c34])
    then have a4: "A4 (CHR ''$'' # A3 (A2 (A1 x))) = CHR ''$'' # A4 (A3 (A2 (A1 x)))"
      unfolding A4_def by (rule pass_dollar [OF d4])
    show ?thesis by (simp only: a1 a2 a3 a4)
  qed
  have main: "A4 (A3 (A2 (A1 t))) = render_single_pass t data" for t
  proof (induction t rule: length_induct)
    case (1 t)
    consider (urls) x where "t = ''${urls}'' @ x"
      | (purgeAll) x where "t = ''${purgeAll}'' @ x"
      | (timestamp) x where "t = ''${timestamp}'' @ x"
      | (pattern) x where "t = ''${pattern}'' @ x"
      | (none) "\<forall>x. t \<noteq> ''${urls}'' @ x" "\<forall>x. t \<noteq> ''${purgeAll}'' @ x"
          "\<forall>x. t \<noteq> ''${timestamp}'' @ x" "\<forall>x. t \<noteq> ''${pattern}'' @ x"
      by blast
    then show ?case
    proof cases
      case urls
      then have "length x < length t" by simp
      with 1 have "A4 (A3 (A2 (A1 x))) = render_single_pass x data" by blast
      then show ?thesis
        unfolding urls s1 rsp_urls by (simp add: v1_def)
    next
      case purgeAll
      then have "length x < length t" by simp
      with 1 have "A4 (A3 (A2 (A1 x))) = render_single_pass x data" by blast
      then show ?thesis
        unfolding purgeAll s2 rsp_purgeAll by (simp add: v2_def)
    next
      case timestamp
      then have "length x < length t" by simp
      with 1 have "A4 (A3 (A2 (A1 x))) = render_single_pass x data" by blast
      then show ?thesis
        unfolding timestamp s3 rsp_timestamp by (simp add: v3_def)
    next
      case pattern
      then have "length x < length t" by simp
      with 1 have "A4 (A3 (A2 (A1 x))) = render_single_pass x data" by blast
      then show ?thesis
        unfolding pattern s4 rsp_pattern by (simp add: v4_def)
    next
      case none
      show ?thesis
      proof (cases t)
        case Nil
        then show ?thesis using s_nil by simp
      next
        case (Cons c cs)
        have ih: "A4 (A3 (A2 (A1 cs))) = render_single_pass cs data"
          using 1 Cons by simp
        have r: "render_single_pass (c # cs) data = c # render_single_pass cs data"
          using none unfolding Cons by (intro rsp_char) simp_all
        show ?thesis
        proof (cases "c = CHR ''$''")
          case True
          have "A4 (A3 (A2 (A1 (CHR ''$'' # cs)))) = CHR ''$'' # A4 (A3 (A2 (A1 cs)))"
            using none unfolding Cons True by (intro s_dollar) simp_all
          with r ih show ?thesis unfolding Cons True by simp
        next
          case False
          with r ih show ?thesis unfolding Cons by (simp add: s_char)
        qed
      qed
    qed
  qed
  show ?thesis unfolding pt by (rule main)
qed

theorem render_is_single_pass_witness:
  "processTemplate example_template example_data =
     CHR ''{'' # CHR 0x22 # ''urls'' @ CHR 0x22 # '': ['' @ CHR 0x22 # ''https://site/a'' @ CHR 0x22 # ''], ''
       @ CHR 0x22 # ''timestamp'' @ CHR 0x22 # '': '' @ CHR 0x22 # ''2024-01-01T00:00:00.000Z'' @ CHR 0x22 # '', ''
       @ CHR 0x22 # ''purgeAll'' @ CHR 0x22 # '': false}''"
proof -
  have d: "example_data =
      \<lparr>urls = [''https://site/a''], purgeAll = False, pattern = ''/a'',
       timestamp = ''2024-01-01T00:00:00.000Z''\<rparr>"
    by (simp add: example_data_def example_config_def parseInvalidationPattern_def trim_def is_space_def)
  have "processTemplate example_template example_data =
        render_single_pass example_template example_data"
    by (rule render_is_single_pass) (simp_all add: d)
  also have "\<dots> = CHR ''{'' # CHR 0x22 # ''urls'' @ CHR 0x22 # '': ['' @ CHR 0x22 # ''https://site/a'' @ CHR 0x22 # ''], ''
       @ CHR 0x22 # ''timestamp'' @ CHR 0x22 # '': '' @ CHR 0x22 # ''2024-01-01T00:00:00.000Z'' @ CHR 0x22 # '', ''
       @ CHR 0x22 # ''purgeAll'' @ CHR 0x22 # '': false}''"
    by (simp add: d example_template_def json_string_array_def json_string_def json_char_def json_bool_def)
  finally show ?thesis .
qed

text \<open>
  C7 at the patterns \<^verbatim>\<open>/${purgeAll}\<close> and \<^verbatim>\<open>/${pattern}\<close>, with the template
  \<^verbatim>\<open>${urls}\<close>. Rendering is meant to be one pass in which text put in for a placeholder is
  not substituted again, and the single pass leaves the URL as it is. The code runs
  four passes, each over the result of the one before: the URL that holds
  \<^verbatim>\<open>${purgeAll}\<close> is put in by the first pass and rewritten by the second to end in
  \<^verbatim>\<open>false\<close>; the URL that holds \<^verbatim>\<open>${pattern}\<close> is rewritten by the fourth, which puts
  a quoted string inside the quoted URL, so the body is no longer JSON.
\<close>

theorem nested_substitution:
  "processTemplate ''${urls}''
     (parseInvalidationPattern example_config ''2024-01-01T00:00:00.000Z'' ''/${purgeAll}'') =
       CHR ''['' # CHR 0x22 # ''https://site/false'' @ [CHR 0x22, CHR '']''] \<and>
   render_single_pass ''${urls}''
     (parseInvalidationPattern example_config ''2024-01-01T00:00:00.000Z'' ''/${purgeAll}'') =
       CHR ''['' # CHR 0x22 # ''https://site/${purgeAll}'' @ [CHR 0x22, CHR '']''] \<and>
   processTemplate ''${urls}''
     (parseInvalidationPattern example_config ''2024-01-01T00:00:00.000Z'' ''/${pattern}'') =
       CHR ''['' # CHR 0x22 # ''https://site/'' @ CHR 0x22 # ''/${pattern}'' @ [CHR 0x22, CHR 0x22, CHR '']''] \<and>
   render_single_pass ''${urls}''
     (parseInvalidationPattern example_config ''2024-01-01T00:00:00.000Z'' ''/${pattern}'') =
       CHR ''['' # CHR 0x22 # ''https://site/${pattern}'' @ [CHR 0x22, CHR '']'']"
proof -
  have d: "parseInvalidationPattern example_config ''2024-01-01T00:00:00.000Z'' ''/${purgeAll}'' =
      \<lparr>urls = [''https://site/${purgeAll}''], purgeAll = False, pattern = ''/${purgeAll}'',
       timestamp = ''2024-01-01T00:00:00.000Z''\<rparr>"
    by (simp add: example_config_def parseInvalidationPattern_def trim_def is_space_def)
  have e: "parseInvalidationPattern example_config ''2024-01-01T00:00:00.000Z'' ''/${pattern}'' =
      \<lparr>urls = [''https://site/${pattern}''], purgeAll = False, pattern = ''/${pattern}'',
       timestamp = ''2024-01-01T00:00:00.000Z''\<rparr>"
    by (simp add: example_config_def parseInvalidationPattern_def trim_def is_space_def)
  have p1: "processTemplate ''${urls}''
     (parseInvalidationPattern example_config ''2024-01-01T00:00:00.000Z'' ''/${purgeAll}'') =
       CHR ''['' # CHR 0x22 # ''https://site/false'' @ [CHR 0x22, CHR '']'']"
    unfolding d
    by (simp add: processTemplate_def replace_all_def json_string_array_def json_string_def
          json_char_def json_bool_def strip_quotes_def)
  have r1: "render_single_pass ''${urls}''
     (parseInvalidationPattern example_config ''2024-01-01T00:00:00.000Z'' ''/${purgeAll}'') =
       CHR ''['' # CHR 0x22 # ''https://site/${purgeAll}'' @ [CHR 0x22, CHR '']'']"
    unfolding d by (simp add: json_string_array_def json_string_def json_char_def)
  have p2: "processTemplate ''${urls}''
     (parseInvalidationPattern example_config ''2024-01-01T00:00:00.000Z'' ''/${pattern}'') =
       CHR ''['' # CHR 0x22 # ''https://site/'' @ CHR 0x22 # ''/${pattern}'' @ [CHR 0x22, CHR 0x22, CHR '']'']"
    unfolding e
    by (simp add: processTemplate_def replace_all_def json_string_array_def json_string_def
          json_char_def json_bool_def strip_quotes_def)
  have r2: "render_single_pass ''${urls}''
     (parseInvalidationPattern example_config ''2024-01-01T00:00:00.000Z'' ''/${pattern}'') =
       CHR ''['' # CHR 0x22 # ''https://site/${pattern}'' @ [CHR 0x22, CHR '']'']"
    unfolding e by (simp add: json_string_array_def json_string_def json_char_def)
  show ?thesis using p1 r1 p2 r2 by (intro conjI)
qed

text \<open>
  C6 at the pattern \<^verbatim>\<open>/$$\<close>: the replacement text is read as a template, in which
  \<^verbatim>\<open>$$\<close> stands for one dollar sign, so \<^verbatim>\<open>${pattern}\<close> is not replaced by the pattern
  as a JSON string (which keeps both dollar signs) but by a string with one of them.
\<close>

theorem template_dollar_pattern:
  "processTemplate ''${pattern}''
     (parseInvalidationPattern example_config ''2024-01-01T00:00:00.000Z'' ''/$$'') =
       CHR 0x22 # ''/$'' @ [CHR 0x22] \<and>
   json_string (pattern (parseInvalidationPattern example_config ''2024-01-01T00:00:00.000Z'' ''/$$'')) =
       CHR 0x22 # ''/$$'' @ [CHR 0x22]"
  by (simp add: example_config_def parseInvalidationPattern_def trim_def is_space_def
        processTemplate_def replace_all_def json_string_array_def json_string_def
        json_char_def json_bool_def strip_quotes_def)

text \<open>
  C8 on the header template \<^verbatim>\<open>Bearer ${secret}\<close>: with the secret \<^verbatim>\<open>abc\<close> it renders to
  \<^verbatim>\<open>Bearer abc\<close> and with no secret to \<^verbatim>\<open>Bearer \<close> followed by nothing, but the secret
  \<^verbatim>\<open>pa$$word\<close> is not put in verbatim: the header becomes \<^verbatim>\<open>Bearer pa$word\<close>.
\<close>

theorem header_secret_dollar:
  "processHeaderTemplates [(''Authorization'', ''Bearer ${secret}'')] (Some ''abc'') ''Authorization'' =
     Some ''Bearer abc'' \<and>
   processHeaderTemplates [(''Authorization'', ''Bearer ${secret}'')] None ''Authorization'' =
     Some ''Bearer '' \<and>
   processHeaderTemplates [(''Authorization'', ''Bearer ${secret}'')] (Some ''pa$$word'') ''Authorization'' =
     Some ''Bearer pa$word''"
  by (simp add: processHeaderTemplates_def set_property_def secret_or_empty_def replace_all_def)

end
